theory Spec2Isabelle
  imports Complex_Main
begin

section \<open>The grid path planner \<open>pathPlanner.py\<close>\<close>

text \<open>
  The module has two functions, \<open>heuristic\<close> and \<open>do_a_star\<close>. The model keeps the
  source's names, the order of its statements and its checks. Exceptions are values
  (\<open>Inl\<close>), the two dictionaries are maps, the open set is a list (the source appends
  to it, scans it for the minimum and removes by value), the \<open>while\<close> loops are
  \<open>partial_function (option)\<close>, so that a loop that does not stop is the value \<open>None\<close>.
  The g-scores are natural numbers: the source starts them at \<open>0\<close> and only ever adds \<open>1\<close>.
  Grid cells are integers, compared with \<open>1\<close> as the source does.
\<close>

subsection \<open>Data\<close>

datatype py_error = IndexError | ValueError | OverflowError

type_synonym cell = "int \<times> int"

type_synonym grid = "int list list"

text \<open>An open-set entry is the tuple \<open>(f_score, g_score, node, parent)\<close>; the parent of
  the first entry is \<open>None\<close>.\<close>

type_synonym 'f entry = "'f \<times> nat \<times> cell \<times> cell option"

record 'f search_state =
  open_set :: "'f entry list"
  g_scores :: "cell \<rightharpoonup> nat"
  parents :: "cell \<rightharpoonup> cell"

text \<open>What a call that returns leaves behind: the list it returns, the strings given to
  \<open>display_message\<close> in order, and the lines written by \<open>print\<close>.\<close>

record result =
  path :: "cell list"
  messages :: "string list"
  stdout :: "string list"

datatype outcome = Found "cell list" | NoPath | Raised py_error

datatype 'f step = Return outcome | Next "'f search_state"

subsection \<open>Floating point\<close>

text \<open>
  \<open>heuristic\<close> raises an integer to the power \<open>0.5\<close> and \<open>do_a_star\<close> adds the result to an
  integer; both are computed in IEEE doubles. The search takes the two operations as
  parameters, over any linearly ordered type of scores, so that what is proved for every
  value of the parameters holds whatever the rounding does; \<open>double_ops\<close> below gives them in
  doubles. What the search itself models of the arithmetic is the conversion of the squared
  distance to a double, which raises
  \<open>OverflowError\<close> when the integer, rounded to 53 bits, does not fit below \<open>2 ^ 1024\<close>,
  that is, from \<open>2 ^ 1024 - 2 ^ 970\<close> on. The conversion of \<open>tentative_g\<close>, a count of
  steps, stays far below that in any run a machine can hold and has no error branch.
\<close>

record 'f float_ops =
  pow_half :: "int \<Rightarrow> 'f"
  add_int :: "nat \<Rightarrow> 'f \<Rightarrow> 'f"

definition float_overflow :: int where
  "float_overflow = 2 ^ 1024 - 2 ^ 970"

text \<open>The same operations in exact real arithmetic.\<close>

definition exact_ops :: "real float_ops" where
  "exact_ops = \<lparr>pow_half = (\<lambda>d. sqrt (real_of_int d)), add_int = (\<lambda>g h. real g + h)\<rparr>"

text \<open>
  The same operations in doubles. \<open>to_double\<close> rounds a real number to the nearest number
  with a significand of 53 bits, ties to the even significand, as IEEE 754 does between the
  subnormal range and overflow. \<open>x ** 0.5\<close> converts the integer to a double and rounds the
  square root of that (the power function of the C library taken as correctly rounded);
  \<open>g + h\<close> converts \<open>g\<close> and rounds the sum.
\<close>

definition round_half_even :: "real \<Rightarrow> int" where
  "round_half_even q =
     (let n = \<lfloor>q\<rfloor> in
      if q - of_int n < 1 / 2 then n
      else if 1 / 2 < q - of_int n then n + 1
      else if even n then n else n + 1)"

definition ulp :: "real \<Rightarrow> real" where
  "ulp x = 2 powr (of_int \<lfloor>log 2 \<bar>x\<bar>\<rfloor> - 52)"

definition to_double :: "real \<Rightarrow> real" where
  "to_double x =
     (if x = 0 then 0 else sgn x * of_int (round_half_even (\<bar>x\<bar> / ulp x)) * ulp x)"

definition double_ops :: "real float_ops" where
  "double_ops =
     \<lparr>pow_half = (\<lambda>d. to_double (sqrt (to_double (of_int d)))),
      add_int = (\<lambda>g h. to_double (to_double (of_nat g) + h))\<rparr>"

subsection \<open>Python primitives\<close>

text \<open>\<open>xs[i]\<close>: a negative index counts from the end, an index out of range raises.\<close>

definition py_index :: "'a list \<Rightarrow> int \<Rightarrow> py_error + 'a" where
  "py_index xs i =
     (if 0 \<le> i \<and> i < int (length xs) then Inr (xs ! nat i)
      else if i < 0 \<and> - int (length xs) \<le> i then Inr (xs ! nat (int (length xs) + i))
      else Inl IndexError)"

text \<open>\<open>min(xs, key=...)\<close> keeps the first element whose key is smallest: a later element
  replaces the best one only when its key is strictly smaller.\<close>

fun min_by_key :: "('a \<Rightarrow> 'k::linorder) \<Rightarrow> 'a \<Rightarrow> 'a list \<Rightarrow> 'a" where
  "min_by_key key best [] = best"
| "min_by_key key best (x # xs) = min_by_key key (if key x < key best then x else best) xs"

text \<open>\<open>random.randint(a, b)\<close>: the \<open>k\<close>-th draw from a source \<open>rng\<close> of raw random numbers,
  brought into \<open>a..b\<close>; an empty range raises \<open>ValueError\<close>.\<close>

definition randint :: "(nat \<Rightarrow> nat) \<Rightarrow> nat \<Rightarrow> int \<Rightarrow> int \<Rightarrow> py_error + int" where
  "randint rng k a b =
     (if b < a then Inl ValueError else Inr (a + int (rng k) mod (b - a + 1)))"

text \<open>\<open>str\<close> of an integer, of a cell and of a list of cells.\<close>

fun str_nat :: "nat \<Rightarrow> string" where
  "str_nat n =
     (if n < 10 then [''0123456789'' ! n]
      else str_nat (n div 10) @ [''0123456789'' ! (n mod 10)])"

definition str_int :: "int \<Rightarrow> string" where
  "str_int i = (if i < 0 then CHR ''-'' # str_nat (nat (- i)) else str_nat (nat i))"

definition str_cell :: "cell \<Rightarrow> string" where
  "str_cell c = ''('' @ str_int (fst c) @ '', '' @ str_int (snd c) @ '')''"

fun join_cells :: "cell list \<Rightarrow> string" where
  "join_cells [] = []"
| "join_cells [c] = str_cell c"
| "join_cells (c # cs) = str_cell c @ '', '' @ join_cells cs"

definition str_cells :: "cell list \<Rightarrow> string" where
  "str_cells cs = ''['' @ join_cells cs @ '']''"

subsection \<open>\<open>heuristic\<close>\<close>

definition sq_dist :: "cell \<Rightarrow> cell \<Rightarrow> int" where
  "sq_dist a b = (fst a - fst b)\<^sup>2 + (snd a - snd b)\<^sup>2"

definition heuristic :: "'f float_ops \<Rightarrow> cell \<Rightarrow> cell \<Rightarrow> py_error + 'f" where
  "heuristic fl a b =
     (if float_overflow \<le> sq_dist a b then Inl OverflowError
      else Inr (pow_half fl (sq_dist a b)))"

subsection \<open>\<open>do_a_star\<close>\<close>

definition movements :: "(int \<times> int) list" where
  "movements = [(0, 1), (1, 0), (0, - 1), (- 1, 0)]"

text \<open>The body of the \<open>for dx, dy in movements\<close> loop, for one offset.\<close>

definition visit_neighbor ::
  "'f float_ops \<Rightarrow> grid \<Rightarrow> int \<Rightarrow> int \<Rightarrow> cell \<Rightarrow> cell \<Rightarrow> nat \<Rightarrow>
   'f search_state \<Rightarrow> int \<times> int \<Rightarrow> py_error + 'f search_state" where
  "visit_neighbor fl grid COL ROW goal current current_g st mv =
     (let neighbor = (fst current + fst mv, snd current + snd mv) in
      if 0 \<le> fst neighbor \<and> fst neighbor < COL \<and> 0 \<le> snd neighbor \<and> snd neighbor < ROW then
        (case py_index grid (fst neighbor) of
           Inl e \<Rightarrow> Inl e
         | Inr row \<Rightarrow>
            (case py_index row (snd neighbor) of
               Inl e \<Rightarrow> Inl e
             | Inr v \<Rightarrow>
                if v = 1 then
                  (let tentative_g = current_g + 1 in
                   if (case g_scores st neighbor of None \<Rightarrow> True | Some g \<Rightarrow> tentative_g < g) then
                     (case heuristic fl neighbor goal of
                        Inl e \<Rightarrow> Inl e
                      | Inr h \<Rightarrow>
                          Inr (st\<lparr>g_scores := (g_scores st)(neighbor \<mapsto> tentative_g),
                                  parents := (parents st)(neighbor \<mapsto> current),
                                  open_set := open_set st @
                                    [(add_int fl tentative_g h, tentative_g, neighbor, Some current)]\<rparr>))
                   else Inr st)
                else Inr st))
      else Inr st)"

fun for_movements ::
  "'f float_ops \<Rightarrow> grid \<Rightarrow> int \<Rightarrow> int \<Rightarrow> cell \<Rightarrow> cell \<Rightarrow> nat \<Rightarrow>
   (int \<times> int) list \<Rightarrow> 'f search_state \<Rightarrow> py_error + 'f search_state" where
  "for_movements fl grid COL ROW goal current current_g [] st = Inr st"
| "for_movements fl grid COL ROW goal current current_g (mv # mvs) st =
     (case visit_neighbor fl grid COL ROW goal current current_g st mv of
        Inl e \<Rightarrow> Inl e
      | Inr st' \<Rightarrow> for_movements fl grid COL ROW goal current current_g mvs st')"

text \<open>\<open>while current in parents: path.append(current); current = parents[current]\<close>\<close>

partial_function (option) backtrack ::
  "(cell \<rightharpoonup> cell) \<Rightarrow> cell \<Rightarrow> cell list \<Rightarrow> cell list option" where
  "backtrack ps current pth =
     (case ps current of
        None \<Rightarrow> Some pth
      | Some p \<Rightarrow> backtrack ps p (pth @ [current]))"

text \<open>One pass through the body of \<open>while open_set\<close>, entered with a non-empty open set:
  it returns the path, or raises, or hands the next state to the loop. \<open>None\<close> is a
  path reconstruction that does not stop.\<close>

definition loop_body ::
  "('f::linorder) float_ops \<Rightarrow> grid \<Rightarrow> int \<Rightarrow> int \<Rightarrow> cell \<Rightarrow> cell \<Rightarrow>
   'f search_state \<Rightarrow> 'f step option" where
  "loop_body fl grid COL ROW start goal st =
     (case open_set st of
        [] \<Rightarrow> Some (Return NoPath)
      | x # xs \<Rightarrow>
         (let best = min_by_key fst x xs;
              current_g = fst (snd best);
              current = fst (snd (snd best));
              st1 = st\<lparr>open_set := remove1 best (open_set st)\<rparr>
          in if current = goal then
               (case backtrack (parents st1) current [] of
                  None \<Rightarrow> None
                | Some pth \<Rightarrow> Some (Return (Found (rev (pth @ [start])))))
             else
               (case for_movements fl grid COL ROW goal current current_g movements st1 of
                  Inl e \<Rightarrow> Some (Return (Raised e))
                | Inr st2 \<Rightarrow> Some (Next st2))))"

partial_function (option) search_loop ::
  "('f::linorder) float_ops \<Rightarrow> grid \<Rightarrow> int \<Rightarrow> int \<Rightarrow> cell \<Rightarrow> cell \<Rightarrow>
   'f search_state \<Rightarrow> outcome option" where
  "search_loop fl grid COL ROW start goal st =
     (case loop_body fl grid COL ROW start goal st of
        None \<Rightarrow> None
      | Some (Return r) \<Rightarrow> Some r
      | Some (Next st') \<Rightarrow> search_loop fl grid COL ROW start goal st')"

text \<open>The state at the start of the \<open>n\<close>-th further iteration, when the loop gets there.\<close>

fun state_after ::
  "('f::linorder) float_ops \<Rightarrow> grid \<Rightarrow> int \<Rightarrow> int \<Rightarrow> cell \<Rightarrow> cell \<Rightarrow>
   nat \<Rightarrow> 'f search_state \<Rightarrow> 'f search_state option" where
  "state_after fl grid COL ROW start goal 0 st = Some st"
| "state_after fl grid COL ROW start goal (Suc n) st =
     (case loop_body fl grid COL ROW start goal st of
        Some (Next st') \<Rightarrow> state_after fl grid COL ROW start goal n st'
      | _ \<Rightarrow> None)"

text \<open>\<open>for i in range(1, 10): path.append((random.randint(0, COL-1), random.randint(0, ROW-1)))\<close>\<close>

fun random_points ::
  "(nat \<Rightarrow> nat) \<Rightarrow> int \<Rightarrow> int \<Rightarrow> nat list \<Rightarrow> cell list \<Rightarrow> py_error + cell list" where
  "random_points rng COL ROW [] pth = Inr pth"
| "random_points rng COL ROW (i # is) pth =
     (case randint rng (2 * i) 0 (COL - 1) of
        Inl e \<Rightarrow> Inl e
      | Inr r \<Rightarrow>
         (case randint rng (2 * i + 1) 0 (ROW - 1) of
            Inl e \<Rightarrow> Inl e
          | Inr c \<Rightarrow> random_points rng COL ROW is (pth @ [(r, c)])))"

definition initial_state :: "cell \<Rightarrow> ('f::{linorder,zero}) search_state" where
  "initial_state start =
     \<lparr>open_set = [(0, 0, start, None)], g_scores = [start \<mapsto> 0], parents = Map.empty\<rparr>"

definition start_messages :: "cell \<Rightarrow> string list" where
  "start_messages start =
     [''Created random path points'', ''Start location is '' @ str_cell start]"

definition do_a_star ::
  "('f::{linorder,zero}) float_ops \<Rightarrow> (nat \<Rightarrow> nat) \<Rightarrow> grid \<Rightarrow> cell \<Rightarrow> cell \<Rightarrow>
   (py_error + result) option" where
  "do_a_star fl rng grid start goal =
     (let COL = int (length grid) in
      case py_index grid 0 of
        Inl e \<Rightarrow> Some (Inl e)
      | Inr row0 \<Rightarrow>
         (let ROW = int (length row0) in
          case random_points rng COL ROW [1..<10] [] of
            Inl e \<Rightarrow> Some (Inl e)
          | Inr pth0 \<Rightarrow>
             (case search_loop fl grid COL ROW start goal (initial_state start) of
                None \<Rightarrow> None
              | Some (Raised e) \<Rightarrow> Some (Inl e)
              | Some (Found pth) \<Rightarrow>
                  Some (Inr \<lparr>path = pth,
                             messages = start_messages start @ [''Path found!''],
                             stdout = [''Reconstructed Path:  '' @ str_cells pth]\<rparr>)
              | Some NoPath \<Rightarrow>
                  Some (Inr \<lparr>path = [],
                             messages = start_messages start @ [''No path found!''],
                             stdout = []\<rparr>))))"

section \<open>Vocabulary of the specification\<close>

text \<open>Two cells are adjacent when the second is the first moved by one of the four offsets.\<close>

definition adjacent :: "cell \<Rightarrow> cell \<Rightarrow> bool" where
  "adjacent a b \<longleftrightarrow> (fst b - fst a, snd b - snd a) \<in> set movements"







text \<open>The cells inside a grid of \<open>COL\<close> rows and \<open>ROW\<close> columns.\<close>

definition cells :: "int \<Rightarrow> int \<Rightarrow> cell set" where
  "cells COL ROW = {0..<COL} \<times> {0..<ROW}"


text \<open>What the shortest-path proof needs of the floating-point operations, up to a bound
  \<open>N\<close> on the costs: the score \<open>g + h\<close> of a cell with cost \<open>g\<close> whose offset \<open>(dx, dy)\<close> from
  the goal satisfies \<open>g + |dx| + |dy| < G\<close> is strictly below the score of the goal with
  cost \<open>G\<close>, for every \<open>G\<close> up to \<open>N\<close>. The costs of a search never exceed the number of
  cells of the grid, which is the bound the proof uses. The doubles have the property up to
  \<open>2 ^ 26\<close> (lemma \<open>admissible_upto_double\<close>), exact arithmetic for every bound.\<close>

definition admissible_upto :: "nat \<Rightarrow> ('f::linorder) float_ops \<Rightarrow> bool" where
  "admissible_upto N fl \<longleftrightarrow>
     (\<forall>g G dx dy. G \<le> N \<longrightarrow> int g + \<bar>dx\<bar> + \<bar>dy\<bar> < int G \<longrightarrow>
        add_int fl g (pow_half fl (dx\<^sup>2 + dy\<^sup>2)) < add_int fl G (pow_half fl 0))"

text \<open>Two sources of random numbers, for the runs below.\<close>

definition fixed_rng :: "nat \<Rightarrow> nat" where
  "fixed_rng k = 0"

definition counting_rng :: "nat \<Rightarrow> nat" where
  "counting_rng k = k"

text \<open>The state after the first pass of the loop on the one-row grid of three free cells,
  from its middle cell, with the goal in the row below: the open set holds the right and the
  left neighbour, in this order, with the same f-score.\<close>

definition tie_state :: "'f float_ops \<Rightarrow> 'f search_state" where
  "tie_state fl =
     \<lparr>open_set = [(add_int fl 1 (pow_half fl 2), 1, (0, 2), Some (0, 1)),
                  (add_int fl 1 (pow_half fl 2), 1, (0, 0), Some (0, 1))],
      g_scores = [(0, 1) \<mapsto> 0, (0, 2) \<mapsto> 1, (0, 0) \<mapsto> 1],
      parents = [(0, 2) \<mapsto> (0, 1), (0, 0) \<mapsto> (0, 1)]\<rparr>"

section \<open>Vocabulary of the proofs\<close>

text \<open>The cells that the walk along \<open>parents\<close> visits from \<open>c\<close>, and the cell \<open>r\<close> without
  a parent where it stops.\<close>

fun follows :: "(cell \<rightharpoonup> cell) \<Rightarrow> cell \<Rightarrow> cell list \<Rightarrow> cell \<Rightarrow> bool" where
  "follows ps c [] r = (c = r \<and> ps c = None)"
| "follows ps c (x # xs) r =
     (x = c \<and> (case ps c of None \<Rightarrow> False | Some p \<Rightarrow> follows ps p xs r))"

text \<open>Every recorded parent has a strictly smaller recorded cost than its child.\<close>

definition descending :: "(cell \<rightharpoonup> cell) \<Rightarrow> (cell \<rightharpoonup> nat) \<Rightarrow> bool" where
  "descending ps gs \<longleftrightarrow>
     (\<forall>c p. ps c = Some p \<longrightarrow> (\<exists>gc gp. gs c = Some gc \<and> gs p = Some gp \<and> gp < gc))"

text \<open>The guard of the neighbour loop: inside the bounds \<open>COL\<close>, \<open>ROW\<close>, and the two index
  operations succeed and give \<open>1\<close>.\<close>

definition walkable :: "grid \<Rightarrow> int \<Rightarrow> int \<Rightarrow> cell \<Rightarrow> bool" where
  "walkable grid COL ROW c \<longleftrightarrow>
     0 \<le> fst c \<and> fst c < COL \<and> 0 \<le> snd c \<and> snd c < ROW \<and>
     (case py_index grid (fst c) of
        Inl e \<Rightarrow> False
      | Inr row \<Rightarrow> py_index row (snd c) = Inr 1)"

text \<open>The state after a neighbour has been given a better cost.\<close>

definition relaxed ::
  "'f \<Rightarrow> nat \<Rightarrow> cell \<Rightarrow> cell \<Rightarrow> 'f search_state \<Rightarrow> 'f search_state" where
  "relaxed f g nb current st =
     st\<lparr>g_scores := (g_scores st)(nb \<mapsto> g),
        parents := (parents st)(nb \<mapsto> current),
        open_set := open_set st @ [(f, g, nb, Some current)]\<rparr>"

text \<open>The invariant of the main loop.\<close>

definition search_inv :: "grid \<Rightarrow> int \<Rightarrow> int \<Rightarrow> cell \<Rightarrow> 'f search_state \<Rightarrow> bool" where
  "search_inv grid COL ROW start st \<longleftrightarrow>
     g_scores st start = Some 0 \<and>
     descending (parents st) (g_scores st) \<and>
     (\<forall>c p. parents st c = Some p \<longrightarrow> adjacent p c \<and> walkable grid COL ROW c) \<and>
     (\<forall>c. c \<noteq> start \<longrightarrow> g_scores st c \<noteq> None \<longrightarrow> parents st c \<noteq> None) \<and>
     (\<forall>e \<in> set (open_set st). \<exists>g. g_scores st (fst (snd (snd e))) = Some g \<and> g \<le> fst (snd e))"

text \<open>Scores stay recorded and never grow.\<close>

definition scores_le :: "(cell \<rightharpoonup> nat) \<Rightarrow> (cell \<rightharpoonup> nat) \<Rightarrow> bool" where
  "scores_le gs' gs \<longleftrightarrow> (\<forall>c g. gs c = Some g \<longrightarrow> (\<exists>g'. gs' c = Some g' \<and> g' \<le> g))"

text \<open>The termination order: the number of cells of the grid without a cost, then the sum
  of the recorded costs over the grid, then the length of the open set.\<close>

definition unseen :: "int \<Rightarrow> int \<Rightarrow> 'f search_state \<Rightarrow> nat" where
  "unseen COL ROW st = card {c \<in> cells COL ROW. g_scores st c = None}"

definition score_sum :: "int \<Rightarrow> int \<Rightarrow> 'f search_state \<Rightarrow> nat" where
  "score_sum COL ROW st = (\<Sum>c \<in> cells COL ROW. case g_scores st c of None \<Rightarrow> 0 | Some g \<Rightarrow> g)"

definition search_order :: "int \<Rightarrow> int \<Rightarrow> ('f search_state \<times> 'f search_state) set" where
  "search_order COL ROW =
     inv_image (less_than <*lex*> less_than <*lex*> less_than)
       (\<lambda>st. (unseen COL ROW st, score_sum COL ROW st, length (open_set st)))"

definition progress :: "int \<Rightarrow> int \<Rightarrow> 'f search_state \<Rightarrow> 'f search_state \<Rightarrow> bool" where
  "progress COL ROW st' st \<longleftrightarrow>
     st' = st \<or> unseen COL ROW st' < unseen COL ROW st
     \<or> unseen COL ROW st' = unseen COL ROW st \<and> score_sum COL ROW st' < score_sum COL ROW st"

text \<open>The entry the loop takes and the state it leaves in the open set.\<close>

definition best_entry :: "('f::linorder) search_state \<Rightarrow> 'f entry" where
  "best_entry st = min_by_key fst (hd (open_set st)) (tl (open_set st))"

definition popped :: "('f::linorder) search_state \<Rightarrow> 'f search_state" where
  "popped st = st\<lparr>open_set := remove1 (best_entry st) (open_set st)\<rparr>"









section \<open>Lemmas\<close>

subsection \<open>The minimum of the open set\<close>

lemma min_by_key_in: "min_by_key key b xs \<in> set (b # xs)"
  by (induction xs arbitrary: b) auto

lemma min_by_key_le_best: "key (min_by_key key b xs) \<le> key b"
proof (induction xs arbitrary: b)
  case Nil
  show ?case by simp
next
  case (Cons x xs)
  show ?case
  proof (cases "key x < key b")
    case True
    have "key (min_by_key key x xs) \<le> key x" by (rule Cons.IH)
    with True show ?thesis by simp
  next
    case False
    with Cons.IH [of b] show ?thesis by simp
  qed
qed

lemma min_by_key_first:
  "\<exists>us vs. b # xs = us @ min_by_key key b xs # vs
     \<and> (\<forall>e \<in> set us. key (min_by_key key b xs) < key e)
     \<and> (\<forall>e \<in> set vs. key (min_by_key key b xs) \<le> key e)"
proof (induction xs arbitrary: b)
  case Nil
  show ?case by (rule exI [of _ "[]"], rule exI [of _ "[]"]) simp
next
  case (Cons x xs)
  show ?case
  proof (cases "key x < key b")
    case True
    define m where "m = min_by_key key x xs"
    from Cons.IH [of x] obtain us vs where
      split: "x # xs = us @ m # vs" and
      before: "\<forall>e \<in> set us. key m < key e" and
      after: "\<forall>e \<in> set vs. key m \<le> key e" unfolding m_def by blast
    have "key m \<le> key x" unfolding m_def by (rule min_by_key_le_best)
    with True have "key m < key b" by simp
    with before have before': "\<forall>e \<in> set (b # us). key m < key e" by simp
    from split have "b # x # xs = (b # us) @ m # vs" by simp
    with before' after have "\<exists>us vs. b # x # xs = us @ m # vs
        \<and> (\<forall>e \<in> set us. key m < key e) \<and> (\<forall>e \<in> set vs. key m \<le> key e)"
      by blast
    moreover from True have "min_by_key key b (x # xs) = m" by (simp add: m_def)
    ultimately show ?thesis by simp
  next
    case False
    define m where "m = min_by_key key b xs"
    from Cons.IH [of b] obtain us vs where
      split: "b # xs = us @ m # vs" and
      before: "\<forall>e \<in> set us. key m < key e" and
      after: "\<forall>e \<in> set vs. key m \<le> key e" unfolding m_def by blast
    have goal: "\<exists>us' vs'. b # x # xs = us' @ m # vs'
        \<and> (\<forall>e \<in> set us'. key m < key e) \<and> (\<forall>e \<in> set vs'. key m \<le> key e)"
    proof (cases us)
      case Nil
      with split have m: "m = b" and vs: "vs = xs" by simp_all
      from False m have "key m \<le> key x" by simp
      with after vs have after': "\<forall>e \<in> set (x # xs). key m \<le> key e" by simp
      from m have "b # x # xs = [] @ m # (x # xs)" by simp
      moreover have "\<forall>e \<in> set []. key m < key e" by simp
      ultimately show ?thesis using after' by blast
    next
      case (Cons u us')
      with split have u: "u = b" and xs: "xs = us' @ m # vs" by simp_all
      from before Cons u have "key m < key b" by simp
      with False have "key m < key x" by simp
      with before Cons u have before': "\<forall>e \<in> set (b # x # us'). key m < key e" by simp
      from xs have "b # x # xs = (b # x # us') @ m # vs" by simp
      with before' after show ?thesis by blast
    qed
    moreover from False have "min_by_key key b (x # xs) = m" by (simp add: m_def)
    ultimately show ?thesis by simp
  qed
qed


subsection \<open>The walk along the parents\<close>

lemma descendingD:
  "descending ps gs \<Longrightarrow> ps c = Some p \<Longrightarrow> \<exists>gc gp. gs c = Some gc \<and> gs p = Some gp \<and> gp < gc"
  unfolding descending_def by blast

lemma backtrack_total:
  assumes "descending ps gs"
  shows "\<exists>chain r. backtrack ps c acc = Some (acc @ chain) \<and> follows ps c chain r"
proof (induction "the (gs c)" arbitrary: c acc rule: less_induct)
  case less
  show ?case
  proof (cases "ps c")
    case None
    then have "backtrack ps c acc = Some (acc @ []) \<and> follows ps c [] c"
      by (simp add: backtrack.simps)
    then show ?thesis by blast
  next
    case (Some p)
    from descendingD [OF assms Some] obtain gc gp where "gs c = Some gc" "gs p = Some gp" "gp < gc"
      by blast
    then have "the (gs p) < the (gs c)" by simp
    from less [OF this, of "acc @ [c]"] obtain chain r where
      "backtrack ps p (acc @ [c]) = Some ((acc @ [c]) @ chain)" "follows ps p chain r" by blast
    with Some have "backtrack ps c acc = Some (acc @ (c # chain)) \<and> follows ps c (c # chain) r"
      by (simp add: backtrack.simps)
    then show ?thesis by blast
  qed
qed

lemma follows_end: "follows ps c chain r \<Longrightarrow> ps r = None"
  by (induction chain arbitrary: c) (auto split: option.splits)

lemma follows_dom: "follows ps c chain r \<Longrightarrow> x \<in> set chain \<Longrightarrow> ps x \<noteq> None"
  by (induction chain arbitrary: c) (auto split: option.splits)

lemma follows_hd: "follows ps c chain r \<Longrightarrow> hd (chain @ [r]) = c"
  by (cases chain) auto

lemma follows_successively:
  "follows ps c chain r \<Longrightarrow> successively (\<lambda>x y. ps x = Some y) (chain @ [r])"
proof (induction chain arbitrary: c)
  case Nil
  then show ?case by simp
next
  case (Cons x xs)
  then obtain p where p: "ps c = Some p" "x = c" "follows ps p xs r"
    by (auto split: option.splits)
  from Cons.IH [OF p(3)] have "successively (\<lambda>x y. ps x = Some y) (xs @ [r])" .
  moreover from p(3) have "hd (xs @ [r]) = p" by (rule follows_hd)
  ultimately show ?case using p by (simp add: successively_Cons)
qed

lemma follows_reached:
  "follows ps c chain r \<Longrightarrow> r = c \<and> chain = [] \<or> (\<exists>x. ps x = Some r)"
proof (induction chain arbitrary: c)
  case Nil
  then show ?case by simp
next
  case (Cons x xs)
  then obtain p where p: "ps c = Some p" "follows ps p xs r"
    by (auto split: option.splits)
  from Cons.IH [OF p(2)] show ?case
  proof
    assume "r = p \<and> xs = []"
    with p(1) have "ps c = Some r" by simp
    then show ?thesis by blast
  next
    assume "\<exists>x. ps x = Some r"
    then show ?thesis by simp
  qed
qed

lemma follows_length:
  "descending ps gs \<Longrightarrow> follows ps c chain r \<Longrightarrow> gs c = Some g \<Longrightarrow>
     \<exists>gr. gs r = Some gr \<and> length chain + gr \<le> g"
proof (induction chain arbitrary: c g)
  case Nil
  then show ?case by simp
next
  case (Cons x xs)
  then obtain p where p: "ps c = Some p" "follows ps p xs r"
    by (auto split: option.splits)
  from descendingD [OF Cons.prems(1) p(1)] obtain gc gp where "gs c = Some gc" and gp: "gs p = Some gp" and "gp < gc"
    by blast
  with Cons.prems(3) have lt: "gp < g" by simp
  from Cons.IH [OF Cons.prems(1) p(2) gp] obtain gr where "gs r = Some gr" "length xs + gr \<le> gp"
    by blast
  with lt show ?case by simp
qed

subsection \<open>One neighbour, and the four of them\<close>

lemma relaxed_simps [simp]:
  "g_scores (relaxed f g nb current st) = (g_scores st)(nb \<mapsto> g)"
  "parents (relaxed f g nb current st) = (parents st)(nb \<mapsto> current)"
  "open_set (relaxed f g nb current st) = open_set st @ [(f, g, nb, Some current)]"
  by (simp_all add: relaxed_def)

lemma visit_neighbor_Inr:
  assumes "visit_neighbor fl grid COL ROW goal current current_g st mv = Inr st'"
    and "nb = (fst current + fst mv, snd current + snd mv)"
  shows "st' = st \<and> (walkable grid COL ROW nb \<longrightarrow> (\<exists>g. g_scores st nb = Some g \<and> g \<le> Suc current_g))
       \<or> walkable grid COL ROW nb \<and> (\<forall>g. g_scores st nb = Some g \<longrightarrow> Suc current_g < g)
          \<and> (\<exists>h. heuristic fl nb goal = Inr h
                \<and> st' = relaxed (add_int fl (Suc current_g) h) (Suc current_g) nb current st)"
  using assms
  by (auto simp: visit_neighbor_def walkable_def relaxed_def Let_def
      split: sum.splits if_splits option.splits)

lemma movement_adjacent:
  "mv \<in> set movements \<Longrightarrow> nb = (fst c + fst mv, snd c + snd mv) \<Longrightarrow> adjacent c nb \<and> nb \<noteq> c"
  by (cases c) (auto simp: adjacent_def movements_def)


lemma relaxed_inv:
  assumes inv: "search_inv grid COL ROW start st"
    and walk: "walkable grid COL ROW nb"
    and adj: "adjacent current nb"
    and ne: "nb \<noteq> current"
    and cur: "g_scores st current = Some g0" "g0 \<le> cg"
    and better: "\<forall>g. g_scores st nb = Some g \<longrightarrow> Suc cg < g"
  shows "search_inv grid COL ROW start (relaxed f (Suc cg) nb current st)"
proof -
  let ?st = "relaxed f (Suc cg) nb current st"
  from inv have start0: "g_scores st start = Some 0"
    and desc: "descending (parents st) (g_scores st)"
    and par: "\<And>c p. parents st c = Some p \<Longrightarrow> adjacent p c \<and> walkable grid COL ROW c"
    and known: "\<And>c. c \<noteq> start \<Longrightarrow> g_scores st c \<noteq> None \<Longrightarrow> parents st c \<noteq> None"
    and ent: "\<And>e. e \<in> set (open_set st) \<Longrightarrow>
        \<exists>g. g_scores st (fst (snd (snd e))) = Some g \<and> g \<le> fst (snd e)"
    unfolding search_inv_def by blast+
  from better start0 have nstart: "nb \<noteq> start" by auto
  have 1: "g_scores ?st start = Some 0" using start0 nstart by simp
  have 2: "descending (parents ?st) (g_scores ?st)"
    unfolding descending_def
  proof (intro allI impI)
    fix c p assume cp: "parents ?st c = Some p"
    show "\<exists>gc gp. g_scores ?st c = Some gc \<and> g_scores ?st p = Some gp \<and> gp < gc"
    proof (cases "c = nb")
      case True
      with cp have "p = current" by simp
      with True ne cur show ?thesis by simp
    next
      case False
      with cp have old: "parents st c = Some p" by simp
      from descendingD [OF desc old] obtain gc gp where
        g: "g_scores st c = Some gc" "g_scores st p = Some gp" "gp < gc" by blast
      show ?thesis
      proof (cases "p = nb")
        case True
        with g better have "Suc cg < gp" by simp
        with g True False show ?thesis by simp
      next
        case pn: False
        with g False show ?thesis by simp
      qed
    qed
  qed
  have 3: "\<forall>c p. parents ?st c = Some p \<longrightarrow> adjacent p c \<and> walkable grid COL ROW c"
  proof (intro allI impI)
    fix c p assume cp: "parents ?st c = Some p"
    show "adjacent p c \<and> walkable grid COL ROW c"
    proof (cases "c = nb")
      case True
      with cp have "p = current" by simp
      with True adj walk show ?thesis by simp
    next
      case False
      with cp have "parents st c = Some p" by simp
      then show ?thesis by (rule par)
    qed
  qed
  have 4: "\<forall>c. c \<noteq> start \<longrightarrow> g_scores ?st c \<noteq> None \<longrightarrow> parents ?st c \<noteq> None"
  proof (intro allI impI)
    fix c assume c: "c \<noteq> start" "g_scores ?st c \<noteq> None"
    show "parents ?st c \<noteq> None"
    proof (cases "c = nb")
      case True
      then show ?thesis by simp
    next
      case False
      with c known [of c] show ?thesis by simp
    qed
  qed
  have 5: "\<forall>e \<in> set (open_set ?st).
      \<exists>g. g_scores ?st (fst (snd (snd e))) = Some g \<and> g \<le> fst (snd e)"
  proof
    fix e assume "e \<in> set (open_set ?st)"
    then have "e \<in> set (open_set st) \<or> e = (f, Suc cg, nb, Some current)" by auto
    then show "\<exists>g. g_scores ?st (fst (snd (snd e))) = Some g \<and> g \<le> fst (snd e)"
    proof
      assume "e \<in> set (open_set st)"
      from ent [OF this] obtain g where g: "g_scores st (fst (snd (snd e))) = Some g" "g \<le> fst (snd e)"
        by blast
      show ?thesis
      proof (cases "fst (snd (snd e)) = nb")
        case True
        with g better have "Suc cg < g" by simp
        with g True show ?thesis by simp
      next
        case False
        with g show ?thesis by simp
      qed
    next
      assume "e = (f, Suc cg, nb, Some current)"
      then show ?thesis by simp
    qed
  qed
  from 1 2 3 4 5 show ?thesis unfolding search_inv_def by blast
qed

lemma scores_le_refl: "scores_le gs gs"
  by (simp add: scores_le_def)

lemma scores_le_trans: "scores_le gs'' gs' \<Longrightarrow> scores_le gs' gs \<Longrightarrow> scores_le gs'' gs"
  unfolding scores_le_def by (meson le_trans)

lemma scores_le_relaxed:
  "\<forall>g. gs nb = Some g \<longrightarrow> g' < g \<Longrightarrow> scores_le (gs(nb \<mapsto> g')) gs"
  unfolding scores_le_def by (simp add: less_imp_le)

lemma visit_neighbor_scores:
  assumes "visit_neighbor fl grid COL ROW goal current current_g st mv = Inr st'"
  shows "scores_le (g_scores st') (g_scores st)"
  using visit_neighbor_Inr [OF assms refl] scores_le_refl scores_le_relaxed
  by (metis relaxed_simps(1))

lemma for_movements_scores:
  "for_movements fl grid COL ROW goal current current_g mvs st = Inr st' \<Longrightarrow>
     scores_le (g_scores st') (g_scores st)"
proof (induction mvs arbitrary: st)
  case Nil
  then show ?case by (simp add: scores_le_refl)
next
  case (Cons mv mvs)
  then obtain st1 where
    1: "visit_neighbor fl grid COL ROW goal current current_g st mv = Inr st1" and
    2: "for_movements fl grid COL ROW goal current current_g mvs st1 = Inr st'"
    by (auto split: sum.splits)
  from Cons.IH [OF 2] visit_neighbor_scores [OF 1] show ?case by (rule scores_le_trans)
qed

lemma visit_neighbor_inv:
  assumes inv: "search_inv grid COL ROW start st"
    and cur: "g_scores st current = Some g0" "g0 \<le> current_g"
    and mv: "mv \<in> set movements"
    and vis: "visit_neighbor fl grid COL ROW goal current current_g st mv = Inr st'"
  shows "search_inv grid COL ROW start st'"
proof -
  define nb where "nb = (fst current + fst mv, snd current + snd mv)"
  from movement_adjacent [OF mv nb_def] have adj: "adjacent current nb" "nb \<noteq> current" by simp_all
  from visit_neighbor_Inr [OF vis nb_def] show ?thesis
  proof (elim disjE conjE exE)
    assume "st' = st"
    with inv show ?thesis by simp
  next
    fix h
    assume "walkable grid COL ROW nb" "\<forall>g. g_scores st nb = Some g \<longrightarrow> Suc current_g < g"
      and st': "st' = relaxed (add_int fl (Suc current_g) h) (Suc current_g) nb current st"
    with relaxed_inv [OF inv _ adj cur] show ?thesis by simp
  qed
qed

lemma for_movements_inv:
  assumes "search_inv grid COL ROW start st"
    and "g_scores st current = Some g0" "g0 \<le> current_g"
    and "set mvs \<subseteq> set movements"
    and "for_movements fl grid COL ROW goal current current_g mvs st = Inr st'"
  shows "search_inv grid COL ROW start st'"
  using assms
proof (induction mvs arbitrary: st g0)
  case Nil
  then show ?case by simp
next
  case (Cons mv mvs)
  from Cons.prems(5) obtain st1 where
    1: "visit_neighbor fl grid COL ROW goal current current_g st mv = Inr st1" and
    2: "for_movements fl grid COL ROW goal current current_g mvs st1 = Inr st'"
    by (auto split: sum.splits)
  from Cons.prems(4) have mv: "mv \<in> set movements" and mvs: "set mvs \<subseteq> set movements" by simp_all
  from visit_neighbor_inv [OF Cons.prems(1-3) mv 1] have inv1: "search_inv grid COL ROW start st1" .
  from visit_neighbor_scores [OF 1] Cons.prems(2,3) obtain g1 where
    g1: "g_scores st1 current = Some g1" "g1 \<le> current_g"
    unfolding scores_le_def by (meson le_trans)
  from Cons.IH [OF inv1 g1 mvs 2] show ?case .
qed

subsection \<open>Termination order\<close>

lemma wf_search_order: "wf (search_order COL ROW)"
  unfolding search_order_def by (intro wf_inv_image wf_lex_prod wf_less_than)

lemma finite_cells: "finite (cells COL ROW)"
  by (simp add: cells_def)

lemma walkable_cells: "walkable grid COL ROW c \<Longrightarrow> c \<in> cells COL ROW"
  by (cases c) (simp add: walkable_def cells_def)

lemma progress_refl: "progress COL ROW st st"
  by (simp add: progress_def)

lemma progress_trans:
  "progress COL ROW st'' st' \<Longrightarrow> progress COL ROW st' st \<Longrightarrow> progress COL ROW st'' st"
  unfolding progress_def by auto

lemma progress_relaxed:
  assumes nb: "nb \<in> cells COL ROW"
    and better: "\<forall>g. g_scores st nb = Some g \<longrightarrow> g' < g"
  shows "progress COL ROW (relaxed f g' nb current st) st"
proof (cases "g_scores st nb")
  case None
  let ?A = "{c \<in> cells COL ROW. g_scores st c = None}"
  let ?B = "{c \<in> cells COL ROW. g_scores (relaxed f g' nb current st) c = None}"
  have "?B \<subseteq> ?A" by auto
  moreover from nb None have "nb \<in> ?A" "nb \<notin> ?B" by simp_all
  ultimately have "?B \<subset> ?A" by blast
  moreover have "finite ?A" using finite_cells by simp
  ultimately have "card ?B < card ?A" by (rule psubset_card_mono [rotated])
  then show ?thesis by (simp add: progress_def unseen_def)
next
  case (Some g)
  with better have lt: "g' < g" by simp
  let ?v = "\<lambda>s c. case g_scores s c of None \<Rightarrow> 0 | Some g \<Rightarrow> g"
  let ?st = "relaxed f g' nb current st"
  have same: "{c \<in> cells COL ROW. g_scores ?st c = None} = {c \<in> cells COL ROW. g_scores st c = None}"
    using Some by auto
  have "(\<Sum>c \<in> cells COL ROW. ?v ?st c) < (\<Sum>c \<in> cells COL ROW. ?v st c)"
  proof (rule sum_strict_mono_ex1)
    show "finite (cells COL ROW)" by (rule finite_cells)
    show "\<forall>c \<in> cells COL ROW. ?v ?st c \<le> ?v st c" using Some lt by simp
    show "\<exists>c \<in> cells COL ROW. ?v ?st c < ?v st c" using Some lt nb by (intro bexI [of _ nb]) simp_all
  qed
  with same show ?thesis by (simp add: progress_def unseen_def score_sum_def)
qed

lemma visit_neighbor_progress:
  assumes "visit_neighbor fl grid COL ROW goal current current_g st mv = Inr st'"
  shows "progress COL ROW st' st"
  using visit_neighbor_Inr [OF assms refl] progress_refl progress_relaxed walkable_cells
  by metis

lemma for_movements_progress:
  "for_movements fl grid COL ROW goal current current_g mvs st = Inr st' \<Longrightarrow>
     progress COL ROW st' st"
proof (induction mvs arbitrary: st)
  case Nil
  then show ?case by (simp add: progress_refl)
next
  case (Cons mv mvs)
  then obtain st1 where
    1: "visit_neighbor fl grid COL ROW goal current current_g st mv = Inr st1" and
    2: "for_movements fl grid COL ROW goal current current_g mvs st1 = Inr st'"
    by (auto split: sum.splits)
  from Cons.IH [OF 2] visit_neighbor_progress [OF 1] show ?case by (rule progress_trans)
qed

subsection \<open>One pass through the loop body\<close>

lemma popped_simps [simp]:
  "g_scores (popped st) = g_scores st"
  "parents (popped st) = parents st"
  "open_set (popped st) = remove1 (best_entry st) (open_set st)"
  by (simp_all add: popped_def)

lemma best_entry_in: "open_set st \<noteq> [] \<Longrightarrow> best_entry st \<in> set (open_set st)"
  using min_by_key_in [of fst "hd (open_set st)" "tl (open_set st)"]
  by (cases "open_set st") (simp_all add: best_entry_def)


lemma loop_body_empty:
  "open_set st = [] \<Longrightarrow> loop_body fl grid COL ROW start goal st = Some (Return NoPath)"
  by (simp add: loop_body_def)

lemma loop_body_goal:
  "open_set st \<noteq> [] \<Longrightarrow> fst (snd (snd (best_entry st))) = goal \<Longrightarrow>
     loop_body fl grid COL ROW start goal st =
       (case backtrack (parents st) goal [] of
          None \<Rightarrow> None
        | Some pth \<Rightarrow> Some (Return (Found (rev (pth @ [start])))))"
  by (cases "open_set st") (simp_all add: loop_body_def best_entry_def Let_def)

lemma loop_body_expand:
  "open_set st \<noteq> [] \<Longrightarrow> fst (snd (snd (best_entry st))) \<noteq> goal \<Longrightarrow>
     loop_body fl grid COL ROW start goal st =
       (case for_movements fl grid COL ROW goal (fst (snd (snd (best_entry st))))
               (fst (snd (best_entry st))) movements (popped st) of
          Inl e \<Rightarrow> Some (Return (Raised e))
        | Inr st2 \<Rightarrow> Some (Next st2))"
  by (cases "open_set st") (simp_all add: loop_body_def best_entry_def popped_def Let_def)

lemma popped_inv:
  assumes "search_inv grid COL ROW start st"
  shows "search_inv grid COL ROW start (popped st)"
proof -
  have "set (open_set (popped st)) \<subseteq> set (open_set st)" by (simp add: set_remove1_subset)
  with assms show ?thesis unfolding search_inv_def popped_simps(1,2) by blast
qed

lemma best_entry_score:
  assumes "search_inv grid COL ROW start st" "open_set st \<noteq> []"
  shows "\<exists>g. g_scores st (fst (snd (snd (best_entry st)))) = Some g \<and> g \<le> fst (snd (best_entry st))"
  using assms best_entry_in [OF assms(2)] unfolding search_inv_def by blast

lemma loop_body_Next:
  assumes inv: "search_inv grid COL ROW start st"
    and nxt: "loop_body fl grid COL ROW start goal st = Some (Next st')"
  shows "search_inv grid COL ROW start st' \<and> (st', st) \<in> search_order COL ROW
         \<and> scores_le (g_scores st') (g_scores st)"
proof -
  from nxt have ne: "open_set st \<noteq> []" by (auto simp: loop_body_empty)
  have ng: "fst (snd (snd (best_entry st))) \<noteq> goal"
  proof
    assume "fst (snd (snd (best_entry st))) = goal"
    from loop_body_goal [OF ne this] nxt show False by (simp split: option.splits)
  qed
  let ?cur = "fst (snd (snd (best_entry st)))" and ?g = "fst (snd (best_entry st))"
  from loop_body_expand [OF ne ng] nxt
  have fm: "for_movements fl grid COL ROW goal ?cur ?g movements (popped st) = Inr st'"
    by (simp split: sum.splits)
  from best_entry_score [OF inv ne] obtain g0 where
    g0: "g_scores (popped st) ?cur = Some g0" "g0 \<le> ?g" by auto
  from for_movements_inv [OF popped_inv [OF inv] g0 subset_refl fm]
  have 1: "search_inv grid COL ROW start st'" .
  from for_movements_scores [OF fm] have 3: "scores_le (g_scores st') (g_scores st)" by simp
  from best_entry_in [OF ne] have len: "length (open_set (popped st)) < length (open_set st)"
    by (simp add: length_remove1) (cases "open_set st", simp_all add: ne)
  have same: "unseen COL ROW (popped st) = unseen COL ROW st"
    "score_sum COL ROW (popped st) = score_sum COL ROW st"
    by (simp_all add: unseen_def score_sum_def)
  from for_movements_progress [OF fm] have "progress COL ROW st' (popped st)" .
  with len same have 2: "(st', st) \<in> search_order COL ROW"
    unfolding progress_def search_order_def by auto
  from 1 2 3 show ?thesis by blast
qed

lemma loop_body_total:
  assumes inv: "search_inv grid COL ROW start st"
  shows "loop_body fl grid COL ROW start goal st \<noteq> None"
proof (cases "open_set st = []")
  case True
  then show ?thesis by (simp add: loop_body_empty)
next
  case ne: False
  show ?thesis
  proof (cases "fst (snd (snd (best_entry st))) = goal")
    case True
    from inv have "descending (parents st) (g_scores st)" by (simp add: search_inv_def)
    from backtrack_total [OF this, of goal "[]"] loop_body_goal [OF ne True]
    show ?thesis by auto
  next
    case False
    from loop_body_expand [OF ne False] show ?thesis by (simp split: sum.splits)
  qed
qed

lemma loop_body_Found:
  assumes inv: "search_inv grid COL ROW start st"
    and found: "loop_body fl grid COL ROW start goal st = Some (Return (Found p))"
  shows "open_set st \<noteq> [] \<and> fst (snd (snd (best_entry st))) = goal
       \<and> hd p = start \<and> last p = goal \<and> p \<noteq> [] \<and> successively adjacent p
       \<and> (\<forall>c \<in> set (tl p). walkable grid COL ROW c)
       \<and> (\<exists>g. g_scores st goal = Some g \<and> length p \<le> Suc g)"
proof -
  from found have ne: "open_set st \<noteq> []" by (auto simp: loop_body_empty)
  have at_goal: "fst (snd (snd (best_entry st))) = goal"
  proof (rule ccontr)
    assume "fst (snd (snd (best_entry st))) \<noteq> goal"
    from loop_body_expand [OF ne this] found show False by (simp split: sum.splits)
  qed
  from inv have desc: "descending (parents st) (g_scores st)"
    and par: "\<And>c p. parents st c = Some p \<Longrightarrow> adjacent p c \<and> walkable grid COL ROW c"
    and known: "\<And>c. c \<noteq> start \<Longrightarrow> g_scores st c \<noteq> None \<Longrightarrow> parents st c \<noteq> None"
    unfolding search_inv_def by blast+
  from backtrack_total [OF desc, of goal "[]"] obtain chain r where
    bt: "backtrack (parents st) goal [] = Some chain" and fol: "follows (parents st) goal chain r"
    by auto
  from loop_body_goal [OF ne at_goal] bt found have p: "p = rev (chain @ [start])" by simp
  from best_entry_score [OF inv ne] at_goal obtain g where g: "g_scores st goal = Some g" by auto
  have "g_scores st r \<noteq> None"
    using follows_reached [OF fol]
  proof
    assume "r = goal \<and> chain = []"
    with g show ?thesis by simp
  next
    assume "\<exists>x. parents st x = Some r"
    then obtain x where "parents st x = Some r" ..
    from descendingD [OF desc this] show ?thesis by auto
  qed
  with known [of r] follows_end [OF fol] have r: "r = start" by auto
  from follows_hd [OF fol] r have last: "last p = goal" by (simp add: p last_rev del: rev_append)
  have "successively (\<lambda>x y. parents st x = Some y) (chain @ [start])"
    using follows_successively [OF fol] r by simp
  then have "successively (\<lambda>x y. adjacent y x) (chain @ [start])"
    by (rule successively_mono) (simp add: par)
  then have steps: "successively adjacent p" unfolding p successively_rev .
  have walk: "\<forall>c \<in> set (tl p). walkable grid COL ROW c"
  proof
    fix c assume "c \<in> set (tl p)"
    then have "c \<in> set chain" by (simp add: p)
    from follows_dom [OF fol this] obtain q where "parents st c = Some q" by auto
    then show "walkable grid COL ROW c" using par by blast
  qed
  from follows_length [OF desc fol g] have "length p \<le> Suc g" by (auto simp: p)
  with ne at_goal last steps walk g show ?thesis by (simp add: p)
qed

subsection \<open>The main loop\<close>

lemma search_loop_rule:
  assumes I0: "I st"
    and inv: "\<And>s. I s \<Longrightarrow> search_inv grid COL ROW start s"
    and nxt: "\<And>s s'. I s \<Longrightarrow> loop_body fl grid COL ROW start goal s = Some (Next s') \<Longrightarrow> I s'"
    and ret: "\<And>s r. I s \<Longrightarrow> loop_body fl grid COL ROW start goal s = Some (Return r) \<Longrightarrow> Q r"
  shows "\<exists>r. search_loop fl grid COL ROW start goal st = Some r \<and> Q r"
  using wf_search_order [of COL ROW] I0
proof (induction st rule: wf_induct_rule)
  case (less s)
  from loop_body_total [OF inv [OF less.prems]] obtain x where
    x: "loop_body fl grid COL ROW start goal s = Some x" by blast
  show ?case
  proof (cases x)
    case (Return r)
    with x have "search_loop fl grid COL ROW start goal s = Some r"
      by (subst search_loop.simps) simp
    moreover from ret [OF less.prems] x Return have "Q r" by simp
    ultimately show ?thesis by blast
  next
    case (Next s')
    with x have body: "loop_body fl grid COL ROW start goal s = Some (Next s')" by simp
    from loop_body_Next [OF inv [OF less.prems] body] have "(s', s) \<in> search_order COL ROW" by blast
    from less.IH [OF this nxt [OF less.prems body]] obtain r where
      "search_loop fl grid COL ROW start goal s' = Some r" "Q r" by blast
    moreover from body have "search_loop fl grid COL ROW start goal s
        = search_loop fl grid COL ROW start goal s'"
      by (subst search_loop.simps) simp
    ultimately show ?thesis by simp
  qed
qed

lemma initial_inv: "search_inv grid COL ROW start (initial_state start)"
  by (simp add: search_inv_def initial_state_def descending_def)

lemma random_points_Inl:
  "random_points rng COL ROW is pth = Inl e \<longleftrightarrow> is \<noteq> [] \<and> (COL \<le> 0 \<or> ROW \<le> 0) \<and> e = ValueError"
  by (induction "is" arbitrary: pth) (auto simp: randint_def split: sum.splits)

lemma do_a_star_eq:
  "do_a_star fl rng grid start goal =
     (if grid = [] then Some (Inl IndexError)
      else if grid ! 0 = [] then Some (Inl ValueError)
      else case search_loop fl grid (int (length grid)) (int (length (grid ! 0))) start goal
                  (initial_state start) of
             None \<Rightarrow> None
           | Some (Raised e) \<Rightarrow> Some (Inl e)
           | Some (Found pth) \<Rightarrow>
               Some (Inr \<lparr>path = pth,
                          messages = start_messages start @ [''Path found!''],
                          stdout = [''Reconstructed Path:  '' @ str_cells pth]\<rparr>)
           | Some NoPath \<Rightarrow>
               Some (Inr \<lparr>path = [],
                          messages = start_messages start @ [''No path found!''],
                          stdout = []\<rparr>))"
proof -
  let ?rp = "random_points rng (int (length grid)) (int (length (grid ! 0))) [1..<10] []"
  have upt: "[1..<10] \<noteq> []" by simp
  show ?thesis
  proof (cases "grid = []")
    case True
    then show ?thesis by (simp add: do_a_star_def py_index_def)
  next
    case ne: False
    then have idx: "py_index grid 0 = Inr (grid ! 0)" by (simp add: py_index_def)
    show ?thesis
    proof (cases "grid ! 0 = []")
      case True
      with random_points_Inl [of rng "int (length grid)" "int (length (grid ! 0))" "[1..<10]" "[]" ValueError] upt
      have "?rp = Inl ValueError" by simp
      with ne True idx show ?thesis by (simp add: do_a_star_def Let_def)
    next
      case False
      with ne random_points_Inl [of rng "int (length grid)" "int (length (grid ! 0))" "[1..<10]" "[]"]
      have "\<And>e. ?rp \<noteq> Inl e" by simp
      then obtain pth0 where "?rp = Inr pth0" by (cases ?rp) auto
      with ne False idx show ?thesis by (simp add: do_a_star_def Let_def)
    qed
  qed
qed

lemma search_loop_returns:
  "\<exists>r. search_loop fl grid COL ROW start goal (initial_state start) = Some r"
  using search_loop_rule [of "search_inv grid COL ROW start" "initial_state start" grid COL ROW start
      fl goal "\<lambda>r. True"] initial_inv loop_body_Next
  by blast

lemma search_loop_Found:
  assumes "search_loop fl grid COL ROW start goal (initial_state start) = Some (Found p)"
  shows "hd p = start \<and> last p = goal \<and> p \<noteq> [] \<and> successively adjacent p
       \<and> (\<forall>c \<in> set (tl p). walkable grid COL ROW c)"
proof -
  let ?Q = "\<lambda>r. \<forall>p. r = Found p \<longrightarrow> hd p = start \<and> last p = goal \<and> p \<noteq> [] \<and> successively adjacent p
       \<and> (\<forall>c \<in> set (tl p). walkable grid COL ROW c)"
  have "\<exists>r. search_loop fl grid COL ROW start goal (initial_state start) = Some r \<and> ?Q r"
  proof (rule search_loop_rule [where I = "search_inv grid COL ROW start"])
    show "search_inv grid COL ROW start (initial_state start)" by (rule initial_inv)
  next
    fix s assume "search_inv grid COL ROW start s"
    then show "search_inv grid COL ROW start s" .
  next
    fix s s' assume "search_inv grid COL ROW start s"
      "loop_body fl grid COL ROW start goal s = Some (Next s')"
    then show "search_inv grid COL ROW start s'" using loop_body_Next by blast
  next
    fix s r assume "search_inv grid COL ROW start s"
      "loop_body fl grid COL ROW start goal s = Some (Return r)"
    then show "?Q r" using loop_body_Found by blast
  qed
  with assms show ?thesis by simp
qed

lemma loop_body_scores:
  assumes "loop_body fl grid COL ROW start goal st = Some (Next st')"
  shows "scores_le (g_scores st') (g_scores st)"
proof -
  from assms have ne: "open_set st \<noteq> []" by (auto simp: loop_body_empty)
  have ng: "fst (snd (snd (best_entry st))) \<noteq> goal"
  proof
    assume "fst (snd (snd (best_entry st))) = goal"
    from loop_body_goal [OF ne this] assms show False by (simp split: option.splits)
  qed
  from loop_body_expand [OF ne ng] assms
  have "for_movements fl grid COL ROW goal (fst (snd (snd (best_entry st))))
      (fst (snd (best_entry st))) movements (popped st) = Inr st'"
    by (simp split: sum.splits)
  from for_movements_scores [OF this] show ?thesis by simp
qed

subsection \<open>No exception on a rectangular grid\<close>







subsection \<open>What a pass adds to the open set\<close>









subsection \<open>The search stays on every walk to the goal\<close>










subsection \<open>Costs stay below the number of cells\<close>











subsection \<open>The path found is a shortest one\<close>


subsection \<open>Exact arithmetic and doubles are admissible\<close>

lemma admissible_upto_exact: "admissible_upto N exact_ops"
  unfolding admissible_upto_def
proof (intro allI impI)
  fix g G :: nat and dx dy :: int
  assume lt: "int g + \<bar>dx\<bar> + \<bar>dy\<bar> < int G"
  have "sqrt ((real_of_int dx)\<^sup>2 + (real_of_int dy)\<^sup>2) \<le> \<bar>real_of_int dx\<bar> + \<bar>real_of_int dy\<bar>"
    by (rule sqrt_sum_squares_le_sum_abs)
  moreover from lt have "real g + \<bar>real_of_int dx\<bar> + \<bar>real_of_int dy\<bar> < real G"
    by (metis (mono_tags) of_int_abs of_int_add of_int_less_iff of_int_of_nat_eq)
  ultimately have "real g + sqrt ((real_of_int dx)\<^sup>2 + (real_of_int dy)\<^sup>2) < real G" by linarith
  then show "add_int exact_ops g (pow_half exact_ops (dx\<^sup>2 + dy\<^sup>2))
      < add_int exact_ops G (pow_half exact_ops 0)"
    by (simp add: exact_ops_def)
qed










text \<open>The rounding is a real one: \<open>2 ^ 53 + 1\<close> lies halfway between two doubles and goes to
  the even one, so the bound in \<open>admissible_upto\<close> cannot be dropped for doubles.\<close>

lemma to_double_tie: "to_double (2 ^ 53 + 1) = 2 ^ 53"
proof -
  have "(2 :: real) powr 53 \<le> 2 ^ 53 + 1 \<and> (2 :: real) ^ 53 + 1 < 2 powr (53 + 1)" by simp
  then have "\<lfloor>log 2 (2 ^ 53 + 1 :: real)\<rfloor> = 53"
    using floor_log_eq_powr_iff [of "2 ^ 53 + 1 :: real" 2 53] by simp
  then have u: "ulp (2 ^ 53 + 1) = 2" by (simp add: ulp_def)
  have "round_half_even ((2 ^ 53 + 1) / 2) = 2 ^ 52"
    by (simp add: round_half_even_def Let_def add_divide_distrib)
  with u show ?thesis by (simp add: to_double_def)
qed


subsection \<open>Results of the search\<close>













subsection \<open>The entry a pass takes\<close>

lemma visit_neighbor_appends:
  assumes "visit_neighbor fl grid COL ROW goal current current_g st mv = Inr st'"
  shows "\<exists>new. open_set st' = open_set st @ new"
  using visit_neighbor_Inr [OF assms refl] by auto

lemma for_movements_appends:
  "for_movements fl grid COL ROW goal current current_g mvs st = Inr st' \<Longrightarrow>
     \<exists>new. open_set st' = open_set st @ new"
proof (induction mvs arbitrary: st)
  case Nil
  then show ?case by simp
next
  case (Cons mv mvs)
  then obtain st1 where
    1: "visit_neighbor fl grid COL ROW goal current current_g st mv = Inr st1" and
    2: "for_movements fl grid COL ROW goal current current_g mvs st1 = Inr st'"
    by (auto split: sum.splits)
  from visit_neighbor_appends [OF 1] obtain new1 where "open_set st1 = open_set st @ new1" ..
  moreover from Cons.IH [OF 2] obtain new2 where "open_set st' = open_set st1 @ new2" ..
  ultimately have "open_set st' = open_set st @ (new1 @ new2)" by simp
  then show ?case ..
qed

lemma loop_body_takes_first_minimum:
  assumes ne: "open_set st \<noteq> []"
  shows "\<exists>earlier best later.
      open_set st = earlier @ best # later
      \<and> (\<forall>e \<in> set earlier. fst best < fst e)
      \<and> (\<forall>e \<in> set later. fst best \<le> fst e)
      \<and> loop_body fl grid COL ROW start goal st =
          (if fst (snd (snd best)) = goal then
             (case backtrack (parents st) goal [] of
                None \<Rightarrow> None
              | Some pth \<Rightarrow> Some (Return (Found (rev (pth @ [start])))))
           else
             (case for_movements fl grid COL ROW goal (fst (snd (snd best))) (fst (snd best))
                     movements (st\<lparr>open_set := earlier @ later\<rparr>) of
                Inl e \<Rightarrow> Some (Return (Raised e))
              | Inr st2 \<Rightarrow> Some (Next st2)))"
proof -
  define best where "best = best_entry st"
  from ne have split0: "hd (open_set st) # tl (open_set st) = open_set st" by simp
  from min_by_key_first [of "hd (open_set st)" "tl (open_set st)" fst]
  obtain earlier later where
    split: "open_set st = earlier @ best # later" and
    before: "\<forall>e \<in> set earlier. fst best < fst e" and
    after: "\<forall>e \<in> set later. fst best \<le> fst e"
    unfolding split0 best_def best_entry_def by blast
  from before have "best \<notin> set earlier" by auto
  then have "remove1 best (earlier @ best # later) = earlier @ later"
    by (simp add: remove1_append)
  then have pop: "popped st = st\<lparr>open_set := earlier @ later\<rparr>"
    unfolding popped_def best_def [symmetric] by (simp only: split)
  have "loop_body fl grid COL ROW start goal st =
          (if fst (snd (snd best)) = goal then
             (case backtrack (parents st) goal [] of
                None \<Rightarrow> None
              | Some pth \<Rightarrow> Some (Return (Found (rev (pth @ [start])))))
           else
             (case for_movements fl grid COL ROW goal (fst (snd (snd best))) (fst (snd best))
                     movements (st\<lparr>open_set := earlier @ later\<rparr>) of
                Inl e \<Rightarrow> Some (Return (Raised e))
              | Inr st2 \<Rightarrow> Some (Next st2)))"
  proof (cases "fst (snd (snd best)) = goal")
    case True
    with loop_body_goal [OF ne, of goal fl grid COL ROW start] show ?thesis
      unfolding best_def by simp
  next
    case False
    with loop_body_expand [OF ne, of goal fl grid COL ROW start] pop show ?thesis
      unfolding best_def by simp
  qed
  with split before after show ?thesis by blast
qed

subsection \<open>Runs on concrete grids\<close>

lemmas run_defs = loop_body_def movements_def visit_neighbor_def heuristic_def sq_dist_def
  float_overflow_def exact_ops_def py_index_def Let_def initial_state_def backtrack.simps

lemmas show_defs = start_messages_def str_cell_def str_int_def str_cells_def

lemma run_row2:
  "do_a_star exact_ops fixed_rng [[1, 1]] (0, 0) (0, 1) =
     Some (Inr \<lparr>path = [(0, 0), (0, 1)],
                messages = [''Created random path points'', ''Start location is (0, 0)'',
                            ''Path found!''],
                stdout = [''Reconstructed Path:  [(0, 0), (0, 1)]'']\<rparr>)"
proof -
  have 1: "loop_body exact_ops [[1, 1]] 1 2 (0, 0) (0, 1) (initial_state (0, 0)) =
      Some (Next \<lparr>open_set = [(1, Suc 0, (0, 1), Some (0, 0))],
                  g_scores = [(0, 0) \<mapsto> 0, (0, 1) \<mapsto> Suc 0],
                  parents = [(0, 1) \<mapsto> (0, 0)]\<rparr>)"
    by (simp add: run_defs)
  have 2: "loop_body exact_ops [[1, 1]] 1 2 (0, 0) (0, 1)
      \<lparr>open_set = [(1, Suc 0, (0, 1), Some (0, 0))],
       g_scores = [(0, 0) \<mapsto> 0, (0, 1) \<mapsto> Suc 0],
       parents = [(0, 1) \<mapsto> (0, 0)]\<rparr> = Some (Return (Found [(0, 0), (0, 1)]))"
    by (simp add: run_defs)
  have "search_loop exact_ops [[1, 1]] 1 2 (0, 0) (0, 1) (initial_state (0, 0)) =
      Some (Found [(0, 0), (0, 1)])"
    by (subst search_loop.simps, simp only: 1, simp, subst search_loop.simps, simp only: 2, simp)
  then show ?thesis by (simp add: do_a_star_eq show_defs)
qed

lemma run_single:
  "do_a_star exact_ops fixed_rng [[1]] (0, 0) (0, 0) =
     Some (Inr \<lparr>path = [(0, 0)],
                messages = [''Created random path points'', ''Start location is (0, 0)'',
                            ''Path found!''],
                stdout = [''Reconstructed Path:  [(0, 0)]'']\<rparr>)"
proof -
  have "loop_body exact_ops [[1]] 1 1 (0, 0) (0, 0) (initial_state (0, 0)) =
      Some (Return (Found [(0, 0)]))"
    by (simp add: run_defs)
  then have "search_loop exact_ops [[1]] 1 1 (0, 0) (0, 0) (initial_state (0, 0)) =
      Some (Found [(0, 0)])"
    by (subst search_loop.simps) simp
  then show ?thesis by (simp add: do_a_star_eq show_defs)
qed








lemma tie_first_pass:
  "loop_body fl [[1, 1, 1]] 1 3 (0, 1) (1, 1) (initial_state (0, 1)) = Some (Next (tie_state fl))"
  by (simp add: run_defs tie_state_def)

lemma tie_expansion:
  "for_movements fl [[1, 1, 1]] 1 3 (1, 1) (0, 1) 0 movements
     ((initial_state (0, 1))\<lparr>open_set := []\<rparr>) = Inr (tie_state fl)"
  by (simp add: run_defs tie_state_def)

lemma tie_second_pass:
  "loop_body fl [[1, 1, 1]] 1 3 (0, 1) (1, 1) (tie_state fl) =
     Some (Next ((tie_state fl)\<lparr>open_set := [(add_int fl 1 (pow_half fl 2), 1, (0, 0), Some (0, 1))]\<rparr>))"
  by (simp add: run_defs tie_state_def)

section \<open>The claims\<close>

subsection \<open>C1\<close>



subsection \<open>C2\<close>

text \<open>
  C2. Whenever \<open>do_a_star\<close> returns a non-empty path, the path begins with \<open>start\<close>, ends
  with \<open>goal\<close>, and every cell differs from the one before it by one of the four offsets of
  \<open>movements\<close>. This holds for every grid and whatever the floating-point operations return.
\<close>

theorem path_from_start_to_goal:
  assumes "do_a_star fl rng grid start goal = Some (Inr r)" and "path r \<noteq> []"
  shows "hd (path r) = start \<and> last (path r) = goal \<and> successively adjacent (path r)"
proof -
  from assms(1) have ne: "grid \<noteq> []" "grid ! 0 \<noteq> []"
    by (auto simp: do_a_star_eq split: if_splits)
  let ?loop = "search_loop fl grid (int (length grid)) (int (length (grid ! 0))) start goal
      (initial_state start)"
  from assms ne have "?loop = Some (Found (path r))"
    by (auto simp: do_a_star_eq split: option.splits outcome.splits)
  from search_loop_Found [OF this] show ?thesis by simp
qed

text \<open>
  C2 on the one-row grid of two free cells.
\<close>

theorem path_from_start_to_goal_witness:
  "do_a_star exact_ops fixed_rng [[1, 1]] (0, 0) (0, 1) =
     Some (Inr \<lparr>path = [(0, 0), (0, 1)],
                messages = [''Created random path points'', ''Start location is (0, 0)'',
                            ''Path found!''],
                stdout = [''Reconstructed Path:  [(0, 0), (0, 1)]'']\<rparr>)
   \<and> hd [(0, 0), (0, 1)] = ((0, 0) :: cell) \<and> last [(0, 0), (0, 1)] = ((0, 1) :: cell)
   \<and> successively adjacent [(0, 0), (0, 1)]"
  using path_from_start_to_goal [OF run_row2] run_row2 by simp

subsection \<open>C3\<close>




subsection \<open>C4\<close>




subsection \<open>C5\<close>

text \<open>
  C5 as stated fails. On the one-cell grid the reporter is called twice at the start of the
  search, not once, and the call prints a line on standard output.
\<close>

theorem reporter_counterexample:
  "do_a_star exact_ops fixed_rng [[1]] (0, 0) (0, 0) =
     Some (Inr \<lparr>path = [(0, 0)],
                messages = [''Created random path points'', ''Start location is (0, 0)'',
                            ''Path found!''],
                stdout = [''Reconstructed Path:  [(0, 0)]'']\<rparr>)"
  by (rule run_single)

text \<open>
  C5, as amended. A call that returns has given the reporter exactly three strings: two at
  the start of the search (\<open>Created random path points\<close>, then \<open>Start location is\<close> with
  the start cell) and one at the end, \<open>Path found!\<close> with a path and \<open>No path found!\<close>
  with the empty list. A call that finds a path has also printed one line,
  \<open>Reconstructed Path:\<close> with the path; a call that finds none prints nothing.
\<close>

theorem reporter_and_output:
  assumes "do_a_star fl rng grid start goal = Some (Inr r)"
  shows "messages r = start_messages start @ [if path r = [] then ''No path found!'' else ''Path found!'']
       \<and> stdout r = (if path r = [] then [] else [''Reconstructed Path:  '' @ str_cells (path r)])"
proof -
  from assms have ne: "grid \<noteq> []" "grid ! 0 \<noteq> []"
    by (auto simp: do_a_star_eq split: if_splits)
  let ?loop = "search_loop fl grid (int (length grid)) (int (length (grid ! 0))) start goal
      (initial_state start)"
  from assms ne obtain x where x: "?loop = Some x"
    by (auto simp: do_a_star_eq split: option.splits)
  show ?thesis
  proof (cases x)
    case (Found p)
    with x search_loop_Found have "p \<noteq> []" by blast
    with assms ne x Found show ?thesis by (auto simp: do_a_star_eq)
  next
    case NoPath
    with assms ne x show ?thesis by (auto simp: do_a_star_eq)
  next
    case (Raised e)
    with assms ne x show ?thesis by (auto simp: do_a_star_eq)
  qed
qed

text \<open>
  C5 on the one-cell grid.
\<close>

theorem reporter_and_output_witness:
  "messages \<lparr>path = [(0, 0)],
                messages = [''Created random path points'', ''Start location is (0, 0)'',
                            ''Path found!''],
                stdout = [''Reconstructed Path:  [(0, 0)]'']\<rparr> = start_messages (0, 0) @ [''Path found!'']"
  using reporter_and_output [OF run_single] by simp

subsection \<open>C6\<close>



subsection \<open>C7\<close>

text \<open>
  C7. The result of \<open>do_a_star\<close>, effects included, does not depend on the random numbers
  drawn at the beginning of the call. In every state with a non-empty open set, the pass
  through the loop body works on one entry \<open>best\<close> of the open set, which has a strictly
  smaller f-score than every entry before it and an f-score no larger than every entry after
  it; if its cell is the goal the pass returns the path, and otherwise it expands that cell
  from the open set without this entry, the other entries in their order. The neighbour loop
  only appends to the open set. So the open set is in insertion order, and among equal
  f-scores the earliest inserted entry is taken.
\<close>

theorem deterministic:
  "do_a_star fl rng grid start goal = do_a_star fl rng' grid start goal
   \<and> (open_set st \<noteq> [] \<longrightarrow>
       (\<exists>earlier best later.
          open_set st = earlier @ best # later
          \<and> (\<forall>e \<in> set earlier. fst best < fst e)
          \<and> (\<forall>e \<in> set later. fst best \<le> fst e)
          \<and> loop_body fl grid COL ROW start goal st =
              (if fst (snd (snd best)) = goal then
                 (case backtrack (parents st) goal [] of
                    None \<Rightarrow> None
                  | Some pth \<Rightarrow> Some (Return (Found (rev (pth @ [start])))))
               else
                 (case for_movements fl grid COL ROW goal (fst (snd (snd best))) (fst (snd best))
                         movements (st\<lparr>open_set := earlier @ later\<rparr>) of
                    Inl e \<Rightarrow> Some (Return (Raised e))
                  | Inr st2 \<Rightarrow> Some (Next st2)))))
   \<and> (for_movements fl grid COL ROW goal current current_g mvs st1 = Inr st2 \<longrightarrow>
       (\<exists>new. open_set st2 = open_set st1 @ new))"
  using loop_body_takes_first_minimum [of st fl grid COL ROW start goal]
    for_movements_appends [of fl grid COL ROW goal current current_g mvs st1 st2]
  by (simp add: do_a_star_eq)

text \<open>
  C7 in a call, in doubles: on the one-row grid of three free cells the second pass finds two
  entries with the same f-score, and takes the first, the right neighbour \<open>(0, 2)\<close>; the
  left neighbour stays in the open set.
\<close>

theorem deterministic_witness:
  "do_a_star double_ops fixed_rng [[1, 1, 1]] (0, 1) (1, 1)
     = do_a_star double_ops counting_rng [[1, 1, 1]] (0, 1) (1, 1)
   \<and> state_after double_ops [[1, 1, 1]] 1 3 (0, 1) (1, 1) 1 (initial_state (0, 1))
       = Some (tie_state double_ops)
   \<and> open_set (tie_state double_ops) \<noteq> []
   \<and> (\<exists>earlier best later.
          open_set (tie_state double_ops) = earlier @ best # later
          \<and> (\<forall>e \<in> set earlier. fst best < fst e)
          \<and> (\<forall>e \<in> set later. fst best \<le> fst e)
          \<and> loop_body double_ops [[1, 1, 1]] 1 3 (0, 1) (1, 1) (tie_state double_ops) =
              (if fst (snd (snd best)) = (1, 1) then
                 (case backtrack (parents (tie_state double_ops)) (1, 1) [] of
                    None \<Rightarrow> None
                  | Some pth \<Rightarrow> Some (Return (Found (rev (pth @ [(0, 1)])))))
               else
                 (case for_movements double_ops [[1, 1, 1]] 1 3 (1, 1) (fst (snd (snd best)))
                         (fst (snd best)) movements
                         ((tie_state double_ops)\<lparr>open_set := earlier @ later\<rparr>) of
                    Inl e \<Rightarrow> Some (Return (Raised e))
                  | Inr st2 \<Rightarrow> Some (Next st2))))
   \<and> loop_body double_ops [[1, 1, 1]] 1 3 (0, 1) (1, 1) (tie_state double_ops) =
       Some (Next ((tie_state double_ops)
         \<lparr>open_set := [(add_int double_ops 1 (pow_half double_ops 2), 1, (0, 0), Some (0, 1))]\<rparr>))
   \<and> for_movements double_ops [[1, 1, 1]] 1 3 (1, 1) (0, 1) 0 movements
       ((initial_state (0, 1))\<lparr>open_set := []\<rparr>) = Inr (tie_state double_ops)
   \<and> (\<exists>new. open_set (tie_state double_ops)
         = open_set ((initial_state (0, 1) :: real search_state)\<lparr>open_set := []\<rparr>) @ new)"
proof -
  note d = deterministic [where fl = double_ops and rng = fixed_rng and rng' = counting_rng
      and grid = "[[1, 1, 1]]" and start = "(0, 1)" and goal = "(1, 1)" and COL = 1 and ROW = 3
      and st = "tie_state double_ops" and current = "(0, 1)" and current_g = 0
      and mvs = movements and ?st1.0 = "(initial_state (0, 1))\<lparr>open_set := []\<rparr>"
      and ?st2.0 = "tie_state double_ops"]
  have ne: "open_set (tie_state double_ops) \<noteq> []" by (simp add: tie_state_def)
  have after: "state_after double_ops [[1, 1, 1]] 1 3 (0, 1) (1, 1) 1 (initial_state (0, 1))
       = Some (tie_state double_ops)"
    by (simp add: tie_first_pass)
  from d have 1: "do_a_star double_ops fixed_rng [[1, 1, 1]] (0, 1) (1, 1)
     = do_a_star double_ops counting_rng [[1, 1, 1]] (0, 1) (1, 1)" by (rule conjunct1)
  from d ne have 2: "\<exists>earlier best later.
          open_set (tie_state double_ops) = earlier @ best # later
          \<and> (\<forall>e \<in> set earlier. fst best < fst e)
          \<and> (\<forall>e \<in> set later. fst best \<le> fst e)
          \<and> loop_body double_ops [[1, 1, 1]] 1 3 (0, 1) (1, 1) (tie_state double_ops) =
              (if fst (snd (snd best)) = (1, 1) then
                 (case backtrack (parents (tie_state double_ops)) (1, 1) [] of
                    None \<Rightarrow> None
                  | Some pth \<Rightarrow> Some (Return (Found (rev (pth @ [(0, 1)])))))
               else
                 (case for_movements double_ops [[1, 1, 1]] 1 3 (1, 1) (fst (snd (snd best)))
                         (fst (snd best)) movements
                         ((tie_state double_ops)\<lparr>open_set := earlier @ later\<rparr>) of
                    Inl e \<Rightarrow> Some (Return (Raised e))
                  | Inr st2 \<Rightarrow> Some (Next st2)))"
    by blast
  from d tie_expansion [of double_ops] have 3: "\<exists>new. open_set (tie_state double_ops)
         = open_set ((initial_state (0, 1) :: real search_state)\<lparr>open_set := []\<rparr>) @ new"
    by blast
  from 1 after ne 2 tie_second_pass [of double_ops] tie_expansion [of double_ops] 3
  show ?thesis by blast
qed

subsection \<open>C8\<close>

text \<open>
  C8. From any state, after any number of further iterations of the main loop, a cell that
  had a recorded best cost still has one, and it is no larger: an entry of \<open>g_scores\<close> is
  never removed, and it changes only when \<open>visit_neighbor\<close> replaces it by a strictly
  smaller tentative cost.
\<close>

theorem best_cost_never_grows:
  assumes "state_after fl grid COL ROW start goal n st = Some st'"
    and "g_scores st c = Some g"
  shows "\<exists>g'. g_scores st' c = Some g' \<and> g' \<le> g"
  using assms
proof (induction n arbitrary: st g)
  case 0
  then show ?case by simp
next
  case (Suc n)
  from Suc.prems(1) obtain st1 where
    body: "loop_body fl grid COL ROW start goal st = Some (Next st1)" and
    rest: "state_after fl grid COL ROW start goal n st1 = Some st'"
    by (auto split: option.splits step.splits)
  from loop_body_scores [OF body] Suc.prems(2) obtain g1 where
    g1: "g_scores st1 c = Some g1" "g1 \<le> g" unfolding scores_le_def by blast
  from Suc.IH [OF rest g1(1)] g1(2) show ?case by auto
qed

text \<open>
  C8 over the first iteration on the one-row grid of two free cells.
\<close>

theorem best_cost_never_grows_witness:
  "state_after exact_ops [[1, 1]] 1 2 (0, 0) (0, 1) 1 (initial_state (0, 0)) =
     Some \<lparr>open_set = [(1, Suc 0, (0, 1), Some (0, 0))],
                  g_scores = [(0, 0) \<mapsto> 0, (0, 1) \<mapsto> Suc 0],
                  parents = [(0, 1) \<mapsto> (0, 0)]\<rparr>
   \<and> g_scores (initial_state (0, 0) :: real search_state) (0, 0) = Some 0
   \<and> (\<exists>g'. [(0, 0) \<mapsto> 0, (0 :: int, 1 :: int) \<mapsto> Suc 0] (0, 0) = Some g' \<and> g' \<le> 0)"
proof -
  have 1: "state_after exact_ops [[1, 1]] 1 2 (0, 0) (0, 1) 1 (initial_state (0, 0)) =
     Some \<lparr>open_set = [(1, Suc 0, (0, 1), Some (0, 0))],
                  g_scores = [(0, 0) \<mapsto> 0, (0, 1) \<mapsto> Suc 0],
                  parents = [(0, 1) \<mapsto> (0, 0)]\<rparr>"
    by (simp add: run_defs)
  have 2: "g_scores (initial_state (0, 0) :: real search_state) (0, 0) = Some 0"
    by (simp add: initial_state_def)
  from best_cost_never_grows [OF 1 2] 1 2 show ?thesis by simp
qed

subsection \<open>C9\<close>

text \<open>
  C9. Every call of \<open>do_a_star\<close> comes to an end, for every grid, start and goal: the main
  loop and the walk along \<open>parents\<close> both stop, with a result or with an exception.
\<close>

theorem do_a_star_terminates: "\<exists>r. do_a_star fl rng grid start goal = Some r"
proof -
  obtain r where "search_loop fl grid (int (length grid)) (int (length (grid ! 0))) start goal
      (initial_state start) = Some r"
    using search_loop_returns by blast
  then show ?thesis by (cases r) (simp_all add: do_a_star_eq)
qed

subsection \<open>C10\<close>




end
